theory Spec2Isabelle
  imports Main "HOL-Library.Multiset"
begin

section \<open>Data model: nodes, the list signpost and the store of nodes\<close>

text \<open>
  A \<open>Node*\<close> is an optional address: \<open>None\<close> is \<open>nullptr\<close>. The store maps the
  address of every live node to its contents (\<open>struct Node { int data; Node* next; }\<close>).
  The element type \<open>int\<close> is only ever compared, never computed with, so it is
  modelled by the mathematical integers.

  Names follow the source. Three had to change: \<open>struct List\<close> is the record
  \<open>LinkedList\<close>, the cursor \<open>curr\<close> is written \<open>cur\<close> and the parameter \<open>value\<close>
  is written \<open>val\<close>, because the original names are taken in HOL; the local \<open>next\<close>
  of the sort loop is \<open>nxt\<close>, since \<open>next\<close> is the field.
\<close>

type_synonym addr = nat
type_synonym ptr = "addr option"

record Node =
  data :: int
  "next" :: ptr

record LinkedList =
  head :: ptr

type_synonym heap = "addr \<rightharpoonup> Node"

text \<open>
  What can go wrong in the C++ program: reading or writing through \<open>nullptr\<close>, reading
  or writing through a pointer to no live node, and the failing \<open>assert\<close> of
  \<open>ListInsertAfter\<close>.
\<close>

datatype error = NullDeref | BadPointer | AssertFail

definition deref :: "heap \<Rightarrow> ptr \<Rightarrow> error + Node" where
  "deref h p =
     (case p of
        None \<Rightarrow> Inl NullDeref
      | Some a \<Rightarrow> (case h a of None \<Rightarrow> Inl BadPointer | Some n \<Rightarrow> Inr n))"

text \<open>The assignment \<open>p->next = q\<close>.\<close>

definition set_next :: "heap \<Rightarrow> ptr \<Rightarrow> ptr \<Rightarrow> error + heap" where
  "set_next h p q =
     (case p of
        None \<Rightarrow> Inl NullDeref
      | Some a \<Rightarrow>
          (case h a of
             None \<Rightarrow> Inl BadPointer
           | Some n \<Rightarrow> Inr (h(a \<mapsto> n\<lparr>next := q\<rparr>))))"

section \<open>Basic list operations\<close>

text \<open>\<open>ListPrepend\<close>: \<open>newNode->next = list->head; list->head = newNode;\<close>\<close>

definition ListPrepend :: "LinkedList \<Rightarrow> ptr \<Rightarrow> heap \<Rightarrow> error + (LinkedList \<times> heap)" where
  "ListPrepend l newNode h =
     (case set_next h newNode (head l) of
        Inl e \<Rightarrow> Inl e
      | Inr h1 \<Rightarrow> Inr (l\<lparr>head := newNode\<rparr>, h1))"

text \<open>
  \<open>ListInsertAfter\<close>: the assertion \<open>prev != nullptr\<close>, then
  \<open>newNode->next = prev->next; prev->next = newNode;\<close>. The list itself is not touched.
\<close>

definition ListInsertAfter :: "LinkedList \<Rightarrow> ptr \<Rightarrow> ptr \<Rightarrow> heap \<Rightarrow> error + heap" where
  "ListInsertAfter l prev newNode h =
     (if prev = None then Inl AssertFail
      else
        (case deref h prev of
           Inl e \<Rightarrow> Inl e
         | Inr pn \<Rightarrow>
             (case set_next h newNode (next pn) of
                Inl e \<Rightarrow> Inl e
              | Inr h1 \<Rightarrow> set_next h1 prev newNode)))"

text \<open>
  \<open>ListRemoveAfter\<close> returns the removed node (or \<open>nullptr\<close>) together with the
  updated list and store.
\<close>

definition ListRemoveAfter :: "LinkedList \<Rightarrow> ptr \<Rightarrow> heap \<Rightarrow> error + (ptr \<times> LinkedList \<times> heap)" where
  "ListRemoveAfter l prev h =
     (if prev = None then
        (let nodeToRemove = head l in
         if nodeToRemove \<noteq> None then
           (case deref h nodeToRemove of
              Inl e \<Rightarrow> Inl e
            | Inr rn \<Rightarrow>
                (case set_next h nodeToRemove None of
                   Inl e \<Rightarrow> Inl e
                 | Inr h1 \<Rightarrow> Inr (nodeToRemove, l\<lparr>head := next rn\<rparr>, h1)))
         else Inr (nodeToRemove, l, h))
      else
        (case deref h prev of
           Inl e \<Rightarrow> Inl e
         | Inr pn \<Rightarrow>
             (let nodeToRemove = next pn in
              if nodeToRemove \<noteq> None then
                (case deref h nodeToRemove of
                   Inl e \<Rightarrow> Inl e
                 | Inr rn \<Rightarrow>
                     (case set_next h prev (next rn) of
                        Inl e \<Rightarrow> Inl e
                      | Inr h1 \<Rightarrow>
                          (case set_next h1 nodeToRemove None of
                             Inl e \<Rightarrow> Inl e
                           | Inr h2 \<Rightarrow> Inr (nodeToRemove, l, h2))))
              else Inr (nodeToRemove, l, h))))"

section \<open>The insertion-point scan\<close>

text \<open>
  The \<open>while\<close> loop of \<open>FindInsertionSpot\<close>. It follows \<open>next\<close> links for as long
  as its condition holds, which on a cyclic chain can be forever: not returning is the
  value \<open>None\<close>. The test \<open>curr != boundary\<close> comes first and short-circuits; only then
  is \<open>curr->data\<close> read.
\<close>

partial_function (option) FindInsertionSpot_loop ::
  "heap \<Rightarrow> int \<Rightarrow> ptr \<Rightarrow> ptr \<Rightarrow> ptr \<Rightarrow> (error + ptr) option" where
  "FindInsertionSpot_loop h val boundary prev cur =
     (if cur \<noteq> boundary then
        (case deref h cur of
           Inl e \<Rightarrow> Some (Inl e)
         | Inr cn \<Rightarrow>
             if data cn < val then FindInsertionSpot_loop h val boundary cur (next cn)
             else Some (Inr prev))
      else Some (Inr prev))"

definition FindInsertionSpot :: "LinkedList \<Rightarrow> int \<Rightarrow> ptr \<Rightarrow> heap \<Rightarrow> (error + ptr) option" where
  "FindInsertionSpot l val boundary h = FindInsertionSpot_loop h val boundary None (head l)"

section \<open>The sort driver\<close>

text \<open>
  One pass through the body of the \<open>while (curr != nullptr)\<close> loop of
  \<open>ListInsertionSort\<close>, from the capture of \<open>next\<close> to \<open>curr = next\<close>. The loop
  state is the list, the store and the two cursors \<open>prev\<close> and \<open>curr\<close>. The value
  returned by \<open>ListRemoveAfter\<close> is discarded, as in the source.
\<close>

type_synonym sort_state = "LinkedList \<times> heap \<times> ptr \<times> ptr"

definition sort_body :: "LinkedList \<Rightarrow> heap \<Rightarrow> ptr \<Rightarrow> ptr \<Rightarrow> (error + sort_state) option" where
  "sort_body l h prev cur =
     (case deref h cur of
        Inl e \<Rightarrow> Some (Inl e)
      | Inr cn \<Rightarrow>
          (let nxt = next cn in
           case FindInsertionSpot l (data cn) cur h of
             None \<Rightarrow> None
           | Some (Inl e) \<Rightarrow> Some (Inl e)
           | Some (Inr spot) \<Rightarrow>
               if spot = prev then Some (Inr (l, h, cur, nxt))
               else
                 (case ListRemoveAfter l prev h of
                    Inl e \<Rightarrow> Some (Inl e)
                  | Inr (removed, l1, h1) \<Rightarrow>
                      if spot = None then
                        (case ListPrepend l1 cur h1 of
                           Inl e \<Rightarrow> Some (Inl e)
                         | Inr (l2, h2) \<Rightarrow> Some (Inr (l2, h2, prev, nxt)))
                      else
                        (case ListInsertAfter l1 spot cur h1 of
                           Inl e \<Rightarrow> Some (Inl e)
                         | Inr h2 \<Rightarrow> Some (Inr (l1, h2, prev, nxt))))))"

text \<open>The loop itself: it runs the body for as long as \<open>curr\<close> is not \<open>nullptr\<close>.\<close>

partial_function (option) sort_loop ::
  "LinkedList \<Rightarrow> heap \<Rightarrow> ptr \<Rightarrow> ptr \<Rightarrow> (error + LinkedList \<times> heap) option" where
  "sort_loop l h prev cur =
     (if cur \<noteq> None then
        (case sort_body l h prev cur of
           None \<Rightarrow> None
         | Some (Inl e) \<Rightarrow> Some (Inl e)
         | Some (Inr (l', h', prev', cur')) \<Rightarrow> sort_loop l' h' prev' cur')
      else Some (Inr (l, h)))"

text \<open>
  \<open>ListInsertionSort(List* list)\<close>: the argument is a pointer to the list, so it is
  optional too; the guard returns at once on a null list, an empty list and a one-node
  list. The result is the list and the store when the function returns.
\<close>

definition ListInsertionSort ::
  "LinkedList option \<Rightarrow> heap \<Rightarrow> (error + LinkedList option \<times> heap) option" where
  "ListInsertionSort list h =
     (case list of
        None \<Rightarrow> Some (Inr (None, h))
      | Some l \<Rightarrow>
          if head l = None then Some (Inr (Some l, h))
          else
            (case deref h (head l) of
               Inl e \<Rightarrow> Some (Inl e)
             | Inr hn \<Rightarrow>
                 if next hn = None then Some (Inr (Some l, h))
                 else
                   (case sort_loop l h (head l) (next hn) of
                      None \<Rightarrow> None
                    | Some (Inl e) \<Rightarrow> Some (Inl e)
                    | Some (Inr (l', h')) \<Rightarrow> Some (Inr (Some l', h')))))"

text \<open>
  The state of the loop at its \<open>n\<close>-th iteration boundary (the test of the
  \<open>while\<close>), started in \<open>s\<close>: \<open>None\<close> when the loop has left before, or when an
  earlier pass through the body failed or did not return.
\<close>

fun boundary_state :: "nat \<Rightarrow> sort_state \<Rightarrow> sort_state option" where
  "boundary_state 0 s = Some s"
| "boundary_state (Suc n) s =
     (case boundary_state n s of
        None \<Rightarrow> None
      | Some (l, h, prev, cur) \<Rightarrow>
          if cur \<noteq> None then
            (case sort_body l h prev cur of
               Some (Inr s') \<Rightarrow> Some s'
             | _ \<Rightarrow> None)
          else None)"

section \<open>Reading a chain of nodes off the store\<close>

text \<open>
  A cell is a node seen from outside: its address (its identity) and its value.
  \<open>lseg h p cs q\<close> says that following \<open>next\<close> from \<open>p\<close> visits exactly the live
  nodes \<open>cs\<close>, in this order, and then arrives at \<open>q\<close>. A list is a chain from its
  head to \<open>nullptr\<close>; such a chain is finite and free of cycles.
\<close>

type_synonym cell = "addr \<times> int"

fun lseg :: "heap \<Rightarrow> ptr \<Rightarrow> cell list \<Rightarrow> ptr \<Rightarrow> bool" where
  "lseg h p [] q = (p = q)"
| "lseg h p (c # cs) q =
     (p = Some (fst c) \<and>
      (case h (fst c) of
         None \<Rightarrow> False
       | Some n \<Rightarrow> data n = snd c \<and> lseg h (next n) cs q))"

definition llist :: "heap \<Rightarrow> LinkedList \<Rightarrow> cell list \<Rightarrow> bool" where
  "llist h l cs = lseg h (head l) cs None"

fun ptr_of :: "cell list \<Rightarrow> ptr" where
  "ptr_of [] = None"
| "ptr_of (c # cs) = Some (fst c)"

text \<open>
  What one pass of the loop body does to the sorted prefix, read off the code: the scan
  walks past the cells whose value is strictly below the new one, and the new cell goes
  in right there, in front of the first cell that is not below it.
\<close>

definition place :: "cell \<Rightarrow> cell list \<Rightarrow> cell list" where
  "place x ps = takeWhile (\<lambda>c. snd c < snd x) ps @ x # dropWhile (\<lambda>c. snd c < snd x) ps"

definition place_all :: "cell list \<Rightarrow> cell list \<Rightarrow> cell list" where
  "place_all ps rs = foldl (\<lambda>qs x. place x qs) ps rs"

section \<open>Concrete lists\<close>

text \<open>
  The list that \<open>main\<close> builds with \<open>PushBack\<close>: 39, 45, 11, 22, its nodes at the
  addresses 0 to 3.
\<close>

definition demo_heap :: heap where
  "demo_heap =
     [0 \<mapsto> \<lparr>data = 39, next = Some 1\<rparr>, 1 \<mapsto> \<lparr>data = 45, next = Some 2\<rparr>,
      2 \<mapsto> \<lparr>data = 11, next = Some 3\<rparr>, 3 \<mapsto> \<lparr>data = 22, next = None\<rparr>]"

definition demo_list :: LinkedList where
  "demo_list = \<lparr>head = Some 0\<rparr>"

text \<open>Two nodes of equal value 3, the first at address 0 and the second at address 1.\<close>

definition twin_heap :: heap where
  "twin_heap = [0 \<mapsto> \<lparr>data = 3, next = Some 1\<rparr>, 1 \<mapsto> \<lparr>data = 3, next = None\<rparr>]"

definition twin_list :: LinkedList where
  "twin_list = \<lparr>head = Some 0\<rparr>"

text \<open>Three nodes of equal value 7, at the addresses 0, 1 and 2 in list order.\<close>

definition triple_heap :: heap where
  "triple_heap =
     [0 \<mapsto> \<lparr>data = 7, next = Some 1\<rparr>, 1 \<mapsto> \<lparr>data = 7, next = Some 2\<rparr>,
      2 \<mapsto> \<lparr>data = 7, next = None\<rparr>]"

definition triple_list :: LinkedList where
  "triple_list = \<lparr>head = Some 0\<rparr>"

text \<open>
  A one-node list holding 1 at address 0, and beside it a live node at address 1 that
  is not linked into the list.
\<close>

definition stray_heap :: heap where
  "stray_heap = [0 \<mapsto> \<lparr>data = 1, next = None\<rparr>, 1 \<mapsto> \<lparr>data = 9, next = None\<rparr>]"

definition stray_list :: LinkedList where
  "stray_list = \<lparr>head = Some 0\<rparr>"

section \<open>Chains of nodes: composition, framing, uniqueness\<close>

lemma deref_Some: "h a = Some n \<Longrightarrow> deref h (Some a) = Inr n"
  by (simp add: deref_def)

lemma set_next_Some: "h a = Some n \<Longrightarrow> set_next h (Some a) q = Inr (h(a \<mapsto> n\<lparr>next := q\<rparr>))"
  by (simp add: set_next_def)

lemma lseg_append:
  "lseg h p (as @ bs) q \<longleftrightarrow> (\<exists>m. lseg h p as m \<and> lseg h m bs q)"
  by (induction as arbitrary: p) (auto split: option.splits)

lemma lseg_frame:
  "a \<notin> fst ` set cs \<Longrightarrow> lseg (h(a \<mapsto> n)) p cs q = lseg h p cs q"
  by (induction cs arbitrary: p) (auto split: option.splits)

lemma lseg_unique:
  "lseg h p cs None \<Longrightarrow> lseg h p cs' None \<Longrightarrow> cs = cs'"
proof (induction cs arbitrary: p cs')
  case Nil
  then show ?case by (cases cs') auto
next
  case (Cons c cs)
  then show ?case by (cases cs') (auto split: option.splits simp: prod_eq_iff)
qed

lemma lseg_head_notin_tail:
  assumes "h a = Some n" and "lseg h (next n) cs None"
  shows "a \<notin> fst ` set cs"
proof
  assume "a \<in> fst ` set cs"
  then obtain c where c: "c \<in> set cs" "fst c = a" by auto
  then obtain xs ys where split: "cs = xs @ c # ys" by (auto simp: in_set_conv_decomp)
  with assms(2) obtain m where "lseg h m (c # ys) None"
    by (auto simp: lseg_append)
  with assms(1) c have "lseg h (next n) ys None" by (auto split: option.splits)
  with assms(2) have "cs = ys" by (rule lseg_unique)
  with split show False by simp
qed

lemma lseg_distinct: "lseg h p cs None \<Longrightarrow> distinct (map fst cs)"
proof (induction cs arbitrary: p)
  case Nil
  show ?case by simp
next
  case (Cons c cs)
  then obtain n where n: "h (fst c) = Some n" "lseg h (next n) cs None"
    by (auto split: option.splits)
  from lseg_head_notin_tail[OF n] Cons.IH[OF n(2)] show ?case by simp
qed

lemma lseg_ptr_of: "lseg h p cs None \<Longrightarrow> p = ptr_of cs"
  by (cases cs) auto

section \<open>What the scan returns on a chain\<close>

text \<open>
  The scan walks down the chain for as long as the node is not the boundary and its
  value is below \<open>val\<close>. It returns the last node it walked past. When it walks past
  every node and the boundary is a node, it reads through \<open>nullptr\<close>.
\<close>

lemma FindInsertionSpot_loop_lseg:
  "lseg h cur cs None \<Longrightarrow>
   FindInsertionSpot_loop h v b prev cur =
     Some (if takeWhile (\<lambda>c. Some (fst c) \<noteq> b \<and> snd c < v) cs = cs \<and> b \<noteq> None then Inl NullDeref
           else Inr (if takeWhile (\<lambda>c. Some (fst c) \<noteq> b \<and> snd c < v) cs = [] then prev
                     else Some (fst (last (takeWhile (\<lambda>c. Some (fst c) \<noteq> b \<and> snd c < v) cs)))))"
proof (induction cs arbitrary: prev cur)
  case Nil
  then show ?case
    by (subst FindInsertionSpot_loop.simps) (auto simp: deref_def)
next
  case (Cons c cs)
  then obtain n where n: "cur = Some (fst c)" "h (fst c) = Some n" "data n = snd c"
    "lseg h (next n) cs None"
    by (auto split: option.splits)
  show ?case
    by (subst FindInsertionSpot_loop.simps)
       (simp add: n deref_def Cons.IH[OF n(4)])
qed

lemma FindInsertionSpot_llist:
  assumes "llist h l cs"
  shows "FindInsertionSpot l v b h =
     Some (if takeWhile (\<lambda>c. Some (fst c) \<noteq> b \<and> snd c < v) cs = cs \<and> b \<noteq> None then Inl NullDeref
           else Inr (if takeWhile (\<lambda>c. Some (fst c) \<noteq> b \<and> snd c < v) cs = [] then None
                     else Some (fst (last (takeWhile (\<lambda>c. Some (fst c) \<noteq> b \<and> snd c < v) cs)))))"
  using assms unfolding llist_def FindInsertionSpot_def
  by (rule FindInsertionSpot_loop_lseg)

section \<open>The list operations on a well-formed list\<close>

lemma ListRemoveAfter_llist:
  assumes "llist h l (as @ p # x # bs)"
  shows "\<exists>h'. ListRemoveAfter l (Some (fst p)) h = Inr (Some (fst x), l, h') \<and>
              llist h' l (as @ p # bs) \<and>
              h' (fst p) = Some \<lparr>data = snd p, next = ptr_of bs\<rparr> \<and>
              h' (fst x) = Some \<lparr>data = snd x, next = None\<rparr> \<and>
              (\<forall>a. a \<noteq> fst p \<and> a \<noteq> fst x \<longrightarrow> h' a = h a)"
proof -
  from assms have dist: "distinct (map fst (as @ p # x # bs))"
    unfolding llist_def by (rule lseg_distinct)
  from assms obtain pn xn where
    A: "lseg h (head l) as (Some (fst p))" and
    pn: "h (fst p) = Some pn" "data pn = snd p" "next pn = Some (fst x)" and
    xn: "h (fst x) = Some xn" "data xn = snd x" and
    B: "lseg h (next xn) bs None"
    unfolding llist_def lseg_append by (auto split: option.splits)
  define h' where "h' = h(fst p \<mapsto> pn\<lparr>next := next xn\<rparr>, fst x \<mapsto> xn\<lparr>next := None\<rparr>)"
  from dist have ne: "fst x \<noteq> fst p" by auto
  have run: "ListRemoveAfter l (Some (fst p)) h = Inr (Some (fst x), l, h')"
    using pn xn ne by (simp add: ListRemoveAfter_def deref_def set_next_def h'_def)
  from dist have "fst p \<notin> fst ` set as" "fst x \<notin> fst ` set as"
    "fst p \<notin> fst ` set bs" "fst x \<notin> fst ` set bs" by auto
  with A B have A': "lseg h' (head l) as (Some (fst p))" and B': "lseg h' (next xn) bs None"
    by (simp_all add: h'_def lseg_frame)
  have "llist h' l (as @ p # bs)"
    unfolding llist_def lseg_append
    using A' B' pn ne by (auto simp: h'_def)
  moreover have "h' (fst p) = Some \<lparr>data = snd p, next = ptr_of bs\<rparr>"
    using pn ne lseg_ptr_of[OF B] by (simp add: h'_def)
  moreover have "h' (fst x) = Some \<lparr>data = snd x, next = None\<rparr>"
    using xn by (simp add: h'_def)
  moreover have "\<forall>a. a \<noteq> fst p \<and> a \<noteq> fst x \<longrightarrow> h' a = h a"
    by (simp add: h'_def)
  ultimately show ?thesis using run by blast
qed

lemma ListPrepend_llist:
  assumes "llist h l cs" and "h (fst x) = Some xn" and "data xn = snd x"
    and "fst x \<notin> fst ` set cs"
  shows "\<exists>l' h'. ListPrepend l (Some (fst x)) h = Inr (l', h') \<and> llist h' l' (x # cs) \<and>
              (\<forall>a. a \<noteq> fst x \<longrightarrow> h' a = h a)"
  using assms
  by (auto simp: ListPrepend_def set_next_def llist_def lseg_frame)

lemma ListInsertAfter_llist:
  assumes "llist h l (as @ s # bs)" and "h (fst x) = Some xn" and "data xn = snd x"
    and "fst x \<notin> fst ` set (as @ s # bs)"
  shows "\<exists>h'. ListInsertAfter l (Some (fst s)) (Some (fst x)) h = Inr h' \<and>
              llist h' l (as @ s # x # bs) \<and>
              (\<forall>a. a \<notin> {fst s, fst x} \<longrightarrow> h' a = h a)"
proof -
  from assms(1) have dist: "distinct (map fst (as @ s # bs))"
    unfolding llist_def by (rule lseg_distinct)
  from assms(1) obtain sn where
    A: "lseg h (head l) as (Some (fst s))" and
    sn: "h (fst s) = Some sn" "data sn = snd s" and
    B: "lseg h (next sn) bs None"
    unfolding llist_def lseg_append by (auto split: option.splits)
  define h' where "h' = h(fst x \<mapsto> xn\<lparr>next := next sn\<rparr>, fst s \<mapsto> sn\<lparr>next := Some (fst x)\<rparr>)"
  from assms(4) have ne: "fst x \<noteq> fst s" by auto
  have run: "ListInsertAfter l (Some (fst s)) (Some (fst x)) h = Inr h'"
    using sn assms(2) ne by (simp add: ListInsertAfter_def deref_def set_next_def h'_def)
  from dist assms(4) have "fst s \<notin> fst ` set as" "fst x \<notin> fst ` set as"
    "fst s \<notin> fst ` set bs" "fst x \<notin> fst ` set bs" by auto
  with A B have A': "lseg h' (head l) as (Some (fst s))" and B': "lseg h' (next sn) bs None"
    by (simp_all add: h'_def lseg_frame)
  have "llist h' l (as @ s # x # bs)"
    unfolding llist_def lseg_append
    using A' B' sn assms(2,3) ne by (auto simp: h'_def)
  moreover have "\<forall>a. a \<notin> {fst s, fst x} \<longrightarrow> h' a = h a"
    by (auto simp: h'_def)
  ultimately show ?thesis using run by blast
qed

lemma ListRemoveAfter_head:
  assumes "llist h l (x # xs)"
  shows "\<exists>h'. ListRemoveAfter l None h = Inr (Some (fst x), l\<lparr>head := ptr_of xs\<rparr>, h') \<and>
              llist h' (l\<lparr>head := ptr_of xs\<rparr>) xs \<and>
              h' (fst x) = Some \<lparr>data = snd x, next = None\<rparr> \<and>
              (\<forall>a. a \<noteq> fst x \<longrightarrow> h' a = h a)"
proof -
  from assms have "distinct (map fst (x # xs))"
    unfolding llist_def by (rule lseg_distinct)
  then have notin: "fst x \<notin> fst ` set xs" by simp
  from assms obtain xn where
    hd: "head l = Some (fst x)" and
    xn: "h (fst x) = Some xn" "data xn = snd x" and
    tl: "lseg h (next xn) xs None"
    unfolding llist_def by (auto split: option.splits)
  from tl have nxt: "next xn = ptr_of xs" by (rule lseg_ptr_of)
  define h' where "h' = h(fst x \<mapsto> xn\<lparr>next := None\<rparr>)"
  have "ListRemoveAfter l None h = Inr (Some (fst x), l\<lparr>head := ptr_of xs\<rparr>, h')"
    using hd xn nxt by (simp add: ListRemoveAfter_def deref_def set_next_def h'_def)
  moreover have "llist h' (l\<lparr>head := ptr_of xs\<rparr>) xs"
    using tl notin nxt by (simp add: llist_def h'_def lseg_frame)
  moreover have "h' (fst x) = Some \<lparr>data = snd x, next = None\<rparr>"
    using xn by (simp add: h'_def)
  moreover have "\<forall>a. a \<noteq> fst x \<longrightarrow> h' a = h a"
    by (simp add: h'_def)
  ultimately show ?thesis by blast
qed

lemma ListRemoveAfter_last:
  assumes "llist h l (as @ [p])"
  shows "ListRemoveAfter l (Some (fst p)) h = Inr (None, l, h)"
proof -
  from assms obtain pn where "h (fst p) = Some pn" "next pn = None"
    unfolding llist_def lseg_append by (auto split: option.splits)
  then show ?thesis
    by (simp add: ListRemoveAfter_def deref_def)
qed


lemma ListRemoveAfter_empty:
  assumes "llist h l []"
  shows "ListRemoveAfter l None h = Inr (None, l, h)"
  using assms by (simp add: ListRemoveAfter_def llist_def)

lemma last_fst_neq:
  assumes "distinct (map fst (as @ p # x # bs))"
  shows "fst (last (as @ p # x # bs)) \<noteq> fst p"
proof -
  have "last (as @ p # x # bs) = last (x # bs)" by simp
  moreover have "last (x # bs) \<in> set (x # bs)" by (rule last_in_set) simp
  ultimately have "fst (last (as @ p # x # bs)) \<in> fst ` set (x # bs)" by (metis imageI)
  moreover from assms have "fst p \<notin> fst ` set (x # bs)" by auto
  ultimately show ?thesis by metis
qed

section \<open>Placing a cell into a sorted prefix\<close>

lemma place_Nil: "place x [] = [x]"
  by (simp add: place_def)

lemma place_Cons:
  "place x (y # ys) = (if snd y < snd x then y # place x ys else x # y # ys)"
  by (simp add: place_def)

lemma place_not_Nil: "place x ps \<noteq> []"
  by (simp add: place_def)

lemma set_place: "set (place x ps) = insert x (set ps)"
  by (induction ps) (auto simp: place_Nil place_Cons)

lemma mset_place: "mset (place x ps) = add_mset x (mset ps)"
  by (induction ps) (auto simp: place_Nil place_Cons)

lemma mset_place_all: "mset (place_all ps rs) = mset ps + mset rs"
  unfolding place_all_def
  by (induction rs arbitrary: ps) (auto simp: mset_place)

lemma sorted_place: "sorted (map snd ps) \<Longrightarrow> sorted (map snd (place x ps))"
  by (induction ps) (auto simp: place_Nil place_Cons set_place)

lemma sorted_place_all: "sorted (map snd ps) \<Longrightarrow> sorted (map snd (place_all ps rs))"
  unfolding place_all_def
  by (induction rs arbitrary: ps) (auto simp: sorted_place)

lemma place_all_Nil: "place_all ps [] = ps"
  by (simp add: place_all_def)

lemma place_all_Cons: "place_all ps (x # rs) = place_all (place x ps) rs"
  by (simp add: place_all_def)


lemma place_all_not_Nil: "ps \<noteq> [] \<Longrightarrow> place_all ps rs \<noteq> []"
  by (induction rs arbitrary: ps) (simp_all add: place_all_Nil place_all_Cons place_not_Nil)

lemma place_all_snoc: "place_all ps (rs @ [x]) = place x (place_all ps rs)"
  by (simp add: place_all_def)


lemma place_end: "takeWhile (\<lambda>c. snd c < snd x) ps = ps \<Longrightarrow> place x ps = ps @ [x]"
  by (simp add: place_def)


section \<open>One pass through the loop body\<close>

text \<open>
  The list is the prefix \<open>ps\<close> that ends in \<open>prev\<close>, then the node \<open>x\<close> at
  \<open>curr\<close>, then the rest. The scan is bounded by \<open>curr\<close>, so it sees the prefix
  only. One pass leaves the list as \<open>place x ps\<close> followed by the rest, with \<open>prev\<close>
  at the last node of the new prefix and \<open>curr\<close> at the head of the rest.
\<close>

lemma distinct_map_append_neq:
  "distinct (map f (xs @ ys)) \<Longrightarrow> a \<in> set xs \<Longrightarrow> b \<in> set ys \<Longrightarrow> f a \<noteq> f b"
  by (induction xs) auto

lemma notin_fst: "a \<notin> fst ` set ps \<Longrightarrow> c \<in> set ps \<Longrightarrow> fst c \<noteq> a"
  by auto

lemma takeWhile_stop: "\<not> P x \<Longrightarrow> takeWhile P (ps @ x # rs) = takeWhile P ps"
  by (induction ps) auto

lemma scan_prefix:
  assumes "fst x \<notin> fst ` set ps"
  shows "takeWhile (\<lambda>c. Some (fst c) \<noteq> Some (fst x) \<and> snd c < snd x) (ps @ x # rs)
         = takeWhile (\<lambda>c. snd c < snd x) ps"
proof -
  have "takeWhile (\<lambda>c. Some (fst c) \<noteq> Some (fst x) \<and> snd c < snd x) (ps @ x # rs)
        = takeWhile (\<lambda>c. Some (fst c) \<noteq> Some (fst x) \<and> snd c < snd x) ps"
    by (rule takeWhile_stop) simp
  also have "\<dots> = takeWhile (\<lambda>c. snd c < snd x) ps"
  proof (rule takeWhile_cong)
    fix c assume "c \<in> set ps"
    with assms have "fst c \<noteq> fst x" by (rule notin_fst)
    then show "(Some (fst c) \<noteq> Some (fst x) \<and> snd c < snd x) = (snd c < snd x)" by simp
  qed simp
  finally show ?thesis .
qed

lemma FindInsertionSpot_prefix:
  assumes "llist h l (ps @ x # rs)"
  shows "FindInsertionSpot l (snd x) (Some (fst x)) h =
         Some (Inr (if takeWhile (\<lambda>c. snd c < snd x) ps = [] then None
                    else Some (fst (last (takeWhile (\<lambda>c. snd c < snd x) ps)))))"
proof -
  from assms have "distinct (map fst (ps @ x # rs))"
    unfolding llist_def by (rule lseg_distinct)
  then have notin: "fst x \<notin> fst ` set ps" by auto
  have ne: "takeWhile (\<lambda>c. snd c < snd x) ps \<noteq> ps @ x # rs"
  proof
    assume "takeWhile (\<lambda>c. snd c < snd x) ps = ps @ x # rs"
    then have "length (takeWhile (\<lambda>c. snd c < snd x) ps) = length (ps @ x # rs)" by simp
    moreover have "length (takeWhile (\<lambda>c. snd c < snd x) ps) \<le> length ps"
      by (rule length_takeWhile_le)
    ultimately show False by simp
  qed
  from assms have "lseg h (head l) (ps @ x # rs) None" by (simp add: llist_def)
  from FindInsertionSpot_loop_lseg[OF this, of "snd x" "Some (fst x)" None]
  show ?thesis
    unfolding FindInsertionSpot_def scan_prefix[OF notin] using ne by simp
qed

lemma sort_body_llist:
  assumes wf: "llist h l (ps @ x # rs)" and ps: "ps \<noteq> []"
  shows "\<exists>l' h'. sort_body l h (Some (fst (last ps))) (Some (fst x)) =
                   Some (Inr (l', h', Some (fst (last (place x ps))), ptr_of rs)) \<and>
                 llist h' l' (place x ps @ rs) \<and>
                 (\<forall>a. a \<notin> fst ` set (ps @ x # rs) \<longrightarrow> h' a = h a)"
proof -
  let ?tw = "takeWhile (\<lambda>c. snd c < snd x) ps"
  let ?dw = "dropWhile (\<lambda>c. snd c < snd x) ps"
  from wf have dist: "distinct (map fst (ps @ x # rs))"
    unfolding llist_def by (rule lseg_distinct)
  from wf obtain xn where
    xn: "h (fst x) = Some xn" "data xn = snd x" and R: "lseg h (next xn) rs None"
    unfolding llist_def lseg_append by (auto split: option.splits)
  from R have nxt: "next xn = ptr_of rs" by (rule lseg_ptr_of)
  note spot = FindInsertionSpot_prefix[OF wf]
  show ?thesis
  proof (cases "?tw = ps")
    case True
    then have "place x ps = ps @ [x]" by (rule place_end)
    moreover have "FindInsertionSpot l (snd x) (Some (fst x)) h = Some (Inr (Some (fst (last ps))))"
      using ps unfolding spot True by simp
    then have "sort_body l h (Some (fst (last ps))) (Some (fst x)) =
          Some (Inr (l, h, Some (fst x), ptr_of rs))"
      using xn nxt by (simp add: sort_body_def deref_def)
    ultimately show ?thesis using wf by auto
  next
    case False
    then have dw: "?dw \<noteq> []" by simp
    have split: "ps = ?tw @ ?dw" by simp
    have last_ps: "last ps = last ?dw"
      using dw by (metis last_appendR takeWhile_dropWhile_id)
    have place_last: "last (place x ps) = last ps"
      using dw last_ps by (auto simp: place_def)
    have spot_ne: "(if ?tw = [] then None else Some (fst (last ?tw))) \<noteq> Some (fst (last ps))"
    proof (cases "?tw = []")
      case True
      then show ?thesis by simp
    next
      case tw: False
      from dist have "distinct (map fst ps)" by simp
      then have "distinct (map fst (?tw @ ?dw))" by simp
      moreover have "last ?tw \<in> set ?tw" using tw by (rule last_in_set)
      moreover have "last ?dw \<in> set ?dw" using dw by (rule last_in_set)
      ultimately have "fst (last ?tw) \<noteq> fst (last ?dw)" by (rule distinct_map_append_neq)
      with tw last_ps show ?thesis by simp
    qed
    from ps have bl: "butlast ps @ [last ps] = ps" by simp
    then have eq1: "butlast ps @ last ps # x # rs = ps @ x # rs"
      and eq2: "butlast ps @ last ps # rs = ps @ rs"
      by (metis append_Cons append_Nil append_assoc)+
    from wf have "llist h l (butlast ps @ last ps # x # rs)" by (simp only: eq1)
    from ListRemoveAfter_llist[OF this] obtain h1 where
      rem: "ListRemoveAfter l (Some (fst (last ps))) h = Inr (Some (fst x), l, h1)" and
      wf1': "llist h1 l (butlast ps @ last ps # rs)" and
      x1: "h1 (fst x) = Some \<lparr>data = snd x, next = None\<rparr>" and
      fr1': "\<forall>a. a \<noteq> fst (last ps) \<and> a \<noteq> fst x \<longrightarrow> h1 a = h a"
      by blast
    from wf1' have wf1: "llist h1 l (ps @ rs)" by (simp only: eq2)
    have "fst (last ps) \<in> fst ` set (ps @ x # rs)" using ps by simp
    moreover have "fst x \<in> fst ` set (ps @ x # rs)" by simp
    ultimately have fr1: "\<forall>a. a \<notin> fst ` set (ps @ x # rs) \<longrightarrow> h1 a = h a"
      using fr1' by metis
    from dist have notin: "fst x \<notin> fst ` set (ps @ rs)" by auto
    show ?thesis
    proof (cases "?tw = []")
      case True
      then have pl: "place x ps = x # ps"
        by (metis append_Nil place_def takeWhile_dropWhile_id)
      from ListPrepend_llist[OF wf1 x1 _ notin] obtain l2 h2 where
        pre: "ListPrepend l (Some (fst x)) h1 = Inr (l2, h2)" and
        wf2: "llist h2 l2 (x # ps @ rs)" and
        fr2: "\<forall>a. a \<noteq> fst x \<longrightarrow> h2 a = h1 a"
        by auto
      have "sort_body l h (Some (fst (last ps))) (Some (fst x)) =
            Some (Inr (l2, h2, Some (fst (last ps)), ptr_of rs))"
        using True spot_ne xn nxt rem pre by (simp add: sort_body_def deref_def spot)
      moreover have "llist h2 l2 (place x ps @ rs)" using wf2 pl by simp
      moreover have "fst x \<in> fst ` set (ps @ x # rs)" by simp
      then have "\<forall>a. a \<notin> fst ` set (ps @ x # rs) \<longrightarrow> h2 a = h a"
        using fr1 fr2 by metis
      ultimately show ?thesis using place_last by auto
    next
      case tw: False
      have "ps @ rs = butlast ?tw @ last ?tw # (?dw @ rs)"
        using tw by (metis append_Cons append_Nil append_assoc append_butlast_last_id takeWhile_dropWhile_id)
      with wf1 notin have wf1': "llist h1 l (butlast ?tw @ last ?tw # (?dw @ rs))"
        and notin': "fst x \<notin> fst ` set (butlast ?tw @ last ?tw # (?dw @ rs))"
        by simp_all
      from ListInsertAfter_llist[OF wf1' x1 _ notin'] obtain h2 where
        ins: "ListInsertAfter l (Some (fst (last ?tw))) (Some (fst x)) h1 = Inr h2" and
        wf2: "llist h2 l (butlast ?tw @ last ?tw # x # ?dw @ rs)" and
        fr2: "\<forall>a. a \<notin> {fst (last ?tw), fst x} \<longrightarrow> h2 a = h1 a"
        by auto
      have "butlast ?tw @ last ?tw # x # ?dw @ rs = place x ps @ rs"
        using tw by (simp add: place_def)
      with wf2 have wf2': "llist h2 l (place x ps @ rs)" by simp
      have "last ?tw \<in> set ps" using tw by (meson last_in_set set_takeWhileD)
      then have "fst (last ?tw) \<in> fst ` set (ps @ x # rs)" by simp
      moreover have "fst x \<in> fst ` set (ps @ x # rs)" by simp
      ultimately have fr: "\<forall>a. a \<notin> fst ` set (ps @ x # rs) \<longrightarrow> h2 a = h a"
        using fr1 fr2 by (metis insert_iff empty_iff)
      have "sort_body l h (Some (fst (last ps))) (Some (fst x)) =
            Some (Inr (l, h2, Some (fst (last ps)), ptr_of rs))"
        using tw spot_ne xn nxt rem ins by (simp add: sort_body_def deref_def spot)
      then show ?thesis using wf2' fr place_last by auto
    qed
  qed
qed

section \<open>The loop and the whole sort\<close>

lemma sort_loop_llist:
  "llist h l (ps @ rs) \<Longrightarrow> ps \<noteq> [] \<Longrightarrow>
   \<exists>l' h'. sort_loop l h (Some (fst (last ps))) (ptr_of rs) = Some (Inr (l', h')) \<and>
           llist h' l' (place_all ps rs) \<and>
           (\<forall>a. a \<notin> fst ` set (ps @ rs) \<longrightarrow> h' a = h a)"
proof (induction rs arbitrary: l h ps)
  case Nil
  then show ?case
    by (subst sort_loop.simps) (simp add: place_all_Nil)
next
  case (Cons x rs)
  from sort_body_llist[OF Cons.prems] obtain l1 h1 where
    body: "sort_body l h (Some (fst (last ps))) (Some (fst x)) =
             Some (Inr (l1, h1, Some (fst (last (place x ps))), ptr_of rs))" and
    wf1: "llist h1 l1 (place x ps @ rs)" and
    fr1: "\<forall>a. a \<notin> fst ` set (ps @ x # rs) \<longrightarrow> h1 a = h a"
    by blast
  from Cons.IH[OF wf1 place_not_Nil] obtain l' h' where
    loop: "sort_loop l1 h1 (Some (fst (last (place x ps)))) (ptr_of rs) = Some (Inr (l', h'))" and
    wf': "llist h' l' (place_all (place x ps) rs)" and
    fr': "\<forall>a. a \<notin> fst ` set (place x ps @ rs) \<longrightarrow> h' a = h1 a"
    by blast
  have sets: "set (place x ps @ rs) = set (ps @ x # rs)"
    by (auto simp: set_place)
  have "sort_loop l h (Some (fst (last ps))) (ptr_of (x # rs)) = Some (Inr (l', h'))"
    by (subst sort_loop.simps) (simp add: body loop)
  moreover have "llist h' l' (place_all ps (x # rs))"
    using wf' by (simp add: place_all_Cons)
  moreover have "\<forall>a. a \<notin> fst ` set (ps @ x # rs) \<longrightarrow> h' a = h a"
    using fr1 fr' unfolding sets by simp
  ultimately show ?case by blast
qed

lemma ListInsertionSort_llist:
  assumes "llist h l cs"
  shows "\<exists>l' h'. ListInsertionSort (Some l) h = Some (Inr (Some l', h')) \<and>
                 llist h' l' (place_all [] cs) \<and>
                 (\<forall>a. a \<notin> fst ` set cs \<longrightarrow> h' a = h a)"
proof (cases cs)
  case Nil
  with assms show ?thesis
    by (auto simp: ListInsertionSort_def llist_def place_all_Nil)
next
  case (Cons a rs)
  with assms obtain an where an: "head l = Some (fst a)" "h (fst a) = Some an"
    "lseg h (next an) rs None"
    by (auto simp: llist_def split: option.splits)
  from an(3) have nxt: "next an = ptr_of rs" by (rule lseg_ptr_of)
  show ?thesis
  proof (cases rs)
    case Nil
    with assms Cons an nxt show ?thesis
      by (auto simp: ListInsertionSort_def deref_def place_all_Cons place_all_Nil place_Nil)
  next
    case rs: (Cons b rs')
    from assms Cons have "llist h l ([a] @ rs)" by simp
    from sort_loop_llist[OF this] obtain l' h' where
      loop: "sort_loop l h (Some (fst a)) (ptr_of rs) = Some (Inr (l', h'))" and
      wf': "llist h' l' (place_all [a] rs)" and
      fr': "\<forall>a'. a' \<notin> fst ` set ([a] @ rs) \<longrightarrow> h' a' = h a'"
      by auto
    have "ListInsertionSort (Some l) h = Some (Inr (Some l', h'))"
      using an nxt rs loop by (simp add: ListInsertionSort_def deref_def)
    moreover have "llist h' l' (place_all [] cs)"
      using wf' Cons by (simp add: place_all_Cons place_Nil)
    moreover have "\<forall>a'. a' \<notin> fst ` set cs \<longrightarrow> h' a' = h a'"
      using fr' Cons by simp
    ultimately show ?thesis by blast
  qed
qed

section \<open>The state at each iteration boundary\<close>

lemma boundary_state_llist:
  "llist h l (ps @ rs) \<Longrightarrow> ps \<noteq> [] \<Longrightarrow> n \<le> length rs \<Longrightarrow>
   \<exists>l' h'. boundary_state n (l, h, Some (fst (last ps)), ptr_of rs) =
             Some (l', h', Some (fst (last (place_all ps (take n rs)))), ptr_of (drop n rs)) \<and>
           llist h' l' (place_all ps (take n rs) @ drop n rs)"
proof (induction n)
  case 0
  then show ?case by (simp add: place_all_Nil)
next
  case (Suc n)
  let ?ps = "place_all ps (take n rs)"
  from Suc.prems have n: "n < length rs" by simp
  with Suc obtain l1 h1 where
    st: "boundary_state n (l, h, Some (fst (last ps)), ptr_of rs) =
           Some (l1, h1, Some (fst (last ?ps)), ptr_of (drop n rs))" and
    wf1: "llist h1 l1 (?ps @ drop n rs)"
    by force
  from n have dr: "drop n rs = rs ! n # drop (Suc n) rs"
    by (simp add: Cons_nth_drop_Suc)
  from Suc.prems(2) have ne: "?ps \<noteq> []" by (rule place_all_not_Nil)
  from wf1 have "llist h1 l1 (?ps @ rs ! n # drop (Suc n) rs)" by (simp add: dr)
  from sort_body_llist[OF this ne] obtain l2 h2 where
    body: "sort_body l1 h1 (Some (fst (last ?ps))) (Some (fst (rs ! n))) =
             Some (Inr (l2, h2, Some (fst (last (place (rs ! n) ?ps))), ptr_of (drop (Suc n) rs)))" and
    wf2: "llist h2 l2 (place (rs ! n) ?ps @ drop (Suc n) rs)"
    by blast
  have tk: "place (rs ! n) ?ps = place_all ps (take (Suc n) rs)"
    using n by (simp add: take_Suc_conv_app_nth place_all_snoc)
  have "boundary_state (Suc n) (l, h, Some (fst (last ps)), ptr_of rs) =
          Some (l2, h2, Some (fst (last (place (rs ! n) ?ps))), ptr_of (drop (Suc n) rs))"
    by (simp add: st dr body)
  with wf2 show ?case unfolding tk by blast
qed


text \<open>
  The loop test succeeds at most once per node after the first: past that, there is no
  further boundary.
\<close>

lemma boundary_state_None_mono:
  "boundary_state n s = None \<Longrightarrow> n \<le> m \<Longrightarrow> boundary_state m s = None"
proof (induction m)
  case 0
  then show ?case by simp
next
  case (Suc m)
  show ?case
  proof (cases "n = Suc m")
    case True
    with Suc.prems show ?thesis by simp
  next
    case False
    with Suc have "boundary_state m s = None" by simp
    then show ?thesis by simp
  qed
qed

lemma boundary_state_overrun:
  assumes "llist h l (ps @ rs)" and "ps \<noteq> []" and "length rs < n"
  shows "boundary_state n (l, h, Some (fst (last ps)), ptr_of rs) = None"
proof -
  from boundary_state_llist[OF assms(1,2), of "length rs"] obtain l' h' p where
    "boundary_state (length rs) (l, h, Some (fst (last ps)), ptr_of rs) = Some (l', h', p, None)"
    by auto
  then have "boundary_state (Suc (length rs)) (l, h, Some (fst (last ps)), ptr_of rs) = None"
    by simp
  then show ?thesis
    by (rule boundary_state_None_mono) (use assms(3) in simp)
qed

lemma llist_last_node:
  assumes "llist h l (ps @ us)" and "ps \<noteq> []"
  shows "\<exists>pn. h (fst (last ps)) = Some pn \<and> next pn = ptr_of us"
proof -
  from assms(2) have "ps @ us = butlast ps @ last ps # us" by simp
  with assms(1) have "lseg h (head l) (butlast ps @ last ps # us) None"
    by (simp only: llist_def)
  then obtain pn where "h (fst (last ps)) = Some pn" "lseg h (next pn) us None"
    unfolding lseg_append by (auto split: option.splits)
  then show ?thesis using lseg_ptr_of by blast
qed

text \<open>
  \<open>boundary_state\<close> and \<open>sort_loop\<close> describe the same loop: when the \<open>n\<close>-th
  boundary is the one at which \<open>curr\<close> is \<open>nullptr\<close>, the loop returns the list and
  the store of that boundary.
\<close>

lemma boundary_state_shift:
  "boundary_state (Suc n) (l, h, p, c) =
     (if c \<noteq> None then
        (case sort_body l h p c of Some (Inr s') \<Rightarrow> boundary_state n s' | _ \<Rightarrow> None)
      else None)"
proof (induction n)
  case 0
  show ?case by (auto split: option.splits sum.splits)
next
  case (Suc n)
  have "boundary_state (Suc (Suc n)) (l, h, p, c) =
          (case boundary_state (Suc n) (l, h, p, c) of
             None \<Rightarrow> None
           | Some (l', h', p', c') \<Rightarrow>
               if c' \<noteq> None then
                 (case sort_body l' h' p' c' of Some (Inr s') \<Rightarrow> Some s' | _ \<Rightarrow> None)
               else None)"
    by simp
  also have "\<dots> = (if c \<noteq> None then
        (case sort_body l h p c of Some (Inr s') \<Rightarrow> boundary_state (Suc n) s' | _ \<Rightarrow> None)
      else None)"
    unfolding Suc.IH by (auto split: option.splits sum.splits)
  finally show ?case .
qed

lemma sort_loop_boundary:
  "boundary_state n (l, h, p, c) = Some (l', h', p', None) \<Longrightarrow>
   sort_loop l h p c = Some (Inr (l', h'))"
proof (induction n arbitrary: l h p c)
  case 0
  then show ?case by (subst sort_loop.simps) simp
next
  case (Suc n)
  from Suc.prems obtain l1 h1 p1 c1 where
    c: "c \<noteq> None" and body: "sort_body l h p c = Some (Inr (l1, h1, p1, c1))" and
    rest: "boundary_state n (l1, h1, p1, c1) = Some (l', h', p', None)"
    unfolding boundary_state_shift by (auto split: if_splits option.splits sum.splits)
  from Suc.IH[OF rest] c body show ?case
    by (subst sort_loop.simps) simp
qed

text \<open>
  At every iteration boundary \<open>prev\<close> is the last node of a non-empty prefix of the
  list, \<open>curr\<close> is the node right after it, and the body that starts there runs
  through without a failure.
\<close>

lemma boundary_state_discipline:
  assumes "llist h l (a # b # rs)"
    and "boundary_state n (l, h, Some (fst a), Some (fst b)) = Some (l1, h1, prev, cur)"
  shows "\<exists>ps us pn. ps \<noteq> [] \<and> llist h1 l1 (ps @ us) \<and>
            prev = Some (fst (last ps)) \<and> cur = ptr_of us \<and>
            h1 (fst (last ps)) = Some pn \<and> next pn = cur \<and>
            (cur \<noteq> None \<longrightarrow>
               (\<exists>h2. ListRemoveAfter l1 prev h1 = Inr (cur, l1, h2)) \<and>
               (\<exists>s'. sort_body l1 h1 prev cur = Some (Inr s')))"
proof -
  let ?ps = "place_all [a] (take n (b # rs))"
  let ?us = "drop n (b # rs)"
  from assms(1) have wf: "llist h l ([a] @ (b # rs))" by simp
  have n: "n \<le> length (b # rs)"
  proof (rule ccontr)
    assume "\<not> n \<le> length (b # rs)"
    then have "length (b # rs) < n" by simp
    from boundary_state_overrun[OF wf _ this] assms(2) show False by simp
  qed
  from boundary_state_llist[OF wf _ n] assms(2)
  have st: "prev = Some (fst (last ?ps))" "cur = ptr_of ?us" and wf1: "llist h1 l1 (?ps @ ?us)"
    by auto
  have ne: "?ps \<noteq> []" by (rule place_all_not_Nil) simp
  from llist_last_node[OF wf1 ne] obtain pn where
    pn: "h1 (fst (last ?ps)) = Some pn" "next pn = ptr_of ?us"
    by blast
  have moved: "(\<exists>h2. ListRemoveAfter l1 prev h1 = Inr (cur, l1, h2)) \<and>
               (\<exists>s'. sort_body l1 h1 prev cur = Some (Inr s'))" if "cur \<noteq> None"
  proof -
    from that st(2) obtain x us' where us: "?us = x # us'"
      by (cases ?us) auto
    with wf1 have wfx: "llist h1 l1 (?ps @ x # us')" by simp
    from ne have "?ps @ x # us' = butlast ?ps @ last ?ps # x # us'" by simp
    with wfx have "llist h1 l1 (butlast ?ps @ last ?ps # x # us')" by simp
    from ListRemoveAfter_llist[OF this] st us
    have "\<exists>h2. ListRemoveAfter l1 prev h1 = Inr (cur, l1, h2)" by auto
    moreover from sort_body_llist[OF wfx ne] st us
    have "\<exists>s'. sort_body l1 h1 prev cur = Some (Inr s')" by auto
    ultimately show ?thesis ..
  qed
  have "?ps \<noteq> [] \<and> llist h1 l1 (?ps @ ?us) \<and>
            prev = Some (fst (last ?ps)) \<and> cur = ptr_of ?us \<and>
            h1 (fst (last ?ps)) = Some pn \<and> next pn = cur \<and>
            (cur \<noteq> None \<longrightarrow>
               (\<exists>h2. ListRemoveAfter l1 prev h1 = Inr (cur, l1, h2)) \<and>
               (\<exists>s'. sort_body l1 h1 prev cur = Some (Inr s')))"
    using ne wf1 st pn moved by simp
  then show ?thesis
    by (intro exI)
qed

section \<open>Strictly increasing lists and equal values\<close>

text \<open>
  On a strictly increasing list every scan ends at \<open>prev\<close>, so no node is ever
  unlinked: the list and the store come back as they were.
\<close>

lemma sort_body_in_place:
  assumes wf: "llist h l (ps @ x # rs)" and ps: "ps \<noteq> []"
    and below: "\<forall>c\<in>set ps. snd c < snd x"
  shows "sort_body l h (Some (fst (last ps))) (Some (fst x)) =
           Some (Inr (l, h, Some (fst x), ptr_of rs))"
proof -
  from wf obtain xn where
    xn: "h (fst x) = Some xn" "data xn = snd x" and R: "lseg h (next xn) rs None"
    unfolding llist_def lseg_append by (auto split: option.splits)
  from R have nxt: "next xn = ptr_of rs" by (rule lseg_ptr_of)
  from below have tw: "takeWhile (\<lambda>c. snd c < snd x) ps = ps" by simp
  have "FindInsertionSpot l (snd x) (Some (fst x)) h = Some (Inr (Some (fst (last ps))))"
    using ps unfolding FindInsertionSpot_prefix[OF wf] tw by simp
  then show ?thesis
    using xn nxt by (simp add: sort_body_def deref_def)
qed

lemma sort_loop_in_place:
  "llist h l (ps @ rs) \<Longrightarrow> ps \<noteq> [] \<Longrightarrow> sorted_wrt (<) (map snd (ps @ rs)) \<Longrightarrow>
   sort_loop l h (Some (fst (last ps))) (ptr_of rs) = Some (Inr (l, h))"
proof (induction rs arbitrary: ps)
  case Nil
  then show ?case by (subst sort_loop.simps) simp
next
  case (Cons x rs)
  from Cons.prems(3) have below: "\<forall>c\<in>set ps. snd c < snd x"
    by (auto simp: sorted_wrt_append)
  from sort_body_in_place[OF Cons.prems(1,2) below]
  have body: "sort_body l h (Some (fst (last ps))) (Some (fst x)) =
                Some (Inr (l, h, Some (fst x), ptr_of rs))" .
  from Cons.prems have "llist h l ((ps @ [x]) @ rs)" "sorted_wrt (<) (map snd ((ps @ [x]) @ rs))"
    by simp_all
  from Cons.IH[OF this(1) _ this(2)]
  have "sort_loop l h (Some (fst x)) (ptr_of rs) = Some (Inr (l, h))" by simp
  with body show ?case
    by (subst sort_loop.simps) simp
qed

lemma ListInsertionSort_in_place:
  assumes "llist h l cs" and "sorted_wrt (<) (map snd cs)"
  shows "ListInsertionSort (Some l) h = Some (Inr (Some l, h))"
proof (cases cs)
  case Nil
  with assms show ?thesis by (simp add: ListInsertionSort_def llist_def)
next
  case (Cons a rs)
  with assms obtain an where an: "head l = Some (fst a)" "h (fst a) = Some an"
    "lseg h (next an) rs None"
    by (auto simp: llist_def split: option.splits)
  from an(3) have nxt: "next an = ptr_of rs" by (rule lseg_ptr_of)
  from assms Cons have "llist h l ([a] @ rs)" "sorted_wrt (<) (map snd ([a] @ rs))" by simp_all
  from sort_loop_in_place[OF this(1) _ this(2)]
  have "sort_loop l h (Some (fst a)) (ptr_of rs) = Some (Inr (l, h))" by simp
  with an nxt show ?thesis
    by (cases rs) (simp_all add: ListInsertionSort_def deref_def)
qed

text \<open>
  The scan stops at the first node whose value is not strictly below the new one, so a
  node is put in front of the nodes of the same value that were placed before it: in
  the result, the nodes of any one value stand in the reverse of their input order.
\<close>

lemma filter_place:
  "filter (\<lambda>c. snd c = k) (place x ps) =
     (if snd x = k then x # filter (\<lambda>c. snd c = k) ps else filter (\<lambda>c. snd c = k) ps)"
  by (induction ps) (auto simp: place_Nil place_Cons)

lemma filter_place_all:
  "filter (\<lambda>c. snd c = k) (place_all ps rs) =
     rev (filter (\<lambda>c. snd c = k) rs) @ filter (\<lambda>c. snd c = k) ps"
  by (induction rs arbitrary: ps) (simp_all add: place_all_Nil place_all_Cons filter_place)

lemma ListInsertionSort_equal_values:
  assumes "llist h l cs"
  shows "\<exists>l' h' cs'. ListInsertionSort (Some l) h = Some (Inr (Some l', h')) \<and>
                     llist h' l' cs' \<and>
                     (\<forall>k. filter (\<lambda>c. snd c = k) cs' = rev (filter (\<lambda>c. snd c = k) cs))"
proof -
  from ListInsertionSort_llist[OF assms] obtain l' h' where
    "ListInsertionSort (Some l) h = Some (Inr (Some l', h'))" "llist h' l' (place_all [] cs)"
    by blast
  moreover have "\<forall>k. filter (\<lambda>c. snd c = k) (place_all [] cs) = rev (filter (\<lambda>c. snd c = k) cs)"
    by (simp add: filter_place_all)
  ultimately show ?thesis by blast
qed

section \<open>Facts about the concrete lists\<close>

lemma demo_wf: "llist demo_heap demo_list [(0, 39), (1, 45), (2, 11), (3, 22)]"
  by (simp add: llist_def demo_heap_def demo_list_def)

lemma demo_first_pass:
  "boundary_state (Suc 0) (demo_list, demo_heap, Some 0, Some 1) =
     Some (demo_list, demo_heap, Some 1, Some 2)"
  by (simp add: sort_body_def deref_def FindInsertionSpot_def FindInsertionSpot_loop.simps
      demo_heap_def demo_list_def)

section \<open>Sortedness and permutation\<close>

text \<open>
  Claim C2 (sortedness). For every well-formed input list, \<open>ListInsertionSort\<close>
  returns, and in the list it leaves behind every node's value is at most the value of
  the node right after it.
\<close>

theorem ListInsertionSort_sorted:
  assumes "llist h l cs"
  shows "\<exists>l' h' cs'. ListInsertionSort (Some l) h = Some (Inr (Some l', h')) \<and>
                     llist h' l' cs' \<and>
                     (\<forall>i. Suc i < length cs' \<longrightarrow> snd (cs' ! i) \<le> snd (cs' ! Suc i))"
proof -
  from ListInsertionSort_llist[OF assms] obtain l' h' where
    run: "ListInsertionSort (Some l) h = Some (Inr (Some l', h'))" and
    wf: "llist h' l' (place_all [] cs)"
    by blast
  have "sorted (map snd (place_all [] cs))"
    by (rule sorted_place_all) simp
  then have "\<forall>i. Suc i < length (place_all [] cs) \<longrightarrow>
               snd (place_all [] cs ! i) \<le> snd (place_all [] cs ! Suc i)"
    by (simp add: sorted_iff_nth_Suc)
  with run wf show ?thesis by blast
qed

text \<open>The theorem at the list 39, 45, 11, 22 of \<open>main\<close>.\<close>

theorem ListInsertionSort_sorted_witness:
  "llist demo_heap demo_list [(0, 39), (1, 45), (2, 11), (3, 22)] \<and>
   (\<exists>l' h' cs'. ListInsertionSort (Some demo_list) demo_heap = Some (Inr (Some l', h')) \<and>
                llist h' l' cs' \<and>
                (\<forall>i. Suc i < length cs' \<longrightarrow> snd (cs' ! i) \<le> snd (cs' ! Suc i)))"
proof -
  have wf: "llist demo_heap demo_list [(0, 39), (1, 45), (2, 11), (3, 22)]"
    by (simp add: llist_def demo_heap_def demo_list_def)
  from wf ListInsertionSort_sorted[OF wf] show ?thesis by (rule conjI)
qed

text \<open>
  Claim C3 (permutation preservation). For every well-formed input list, the empty and
  the one-node list included, the list after \<open>ListInsertionSort\<close> consists of the
  same nodes with the same values: the values form the same multiset, and the length is
  the same.
\<close>

theorem ListInsertionSort_permutation:
  assumes "llist h l cs"
  shows "\<exists>l' h' cs'. ListInsertionSort (Some l) h = Some (Inr (Some l', h')) \<and>
                     llist h' l' cs' \<and>
                     mset (map snd cs') = mset (map snd cs) \<and>
                     mset cs' = mset cs \<and>
                     length cs' = length cs"
proof -
  from ListInsertionSort_llist[OF assms] obtain l' h' where
    run: "ListInsertionSort (Some l) h = Some (Inr (Some l', h'))" and
    wf: "llist h' l' (place_all [] cs)"
    by blast
  have m: "mset (place_all [] cs) = mset cs"
    by (simp add: mset_place_all)
  then have "mset (map snd (place_all [] cs)) = mset (map snd cs)"
    by (metis mset_map)
  moreover from m have "length (place_all [] cs) = length cs"
    by (metis size_mset)
  ultimately show ?thesis using run wf m by blast
qed

text \<open>The theorem at the empty list and at a list of two equal values.\<close>

theorem ListInsertionSort_permutation_witness:
  "llist Map.empty \<lparr>head = None\<rparr> [] \<and>
   (\<exists>l' h' cs'. ListInsertionSort (Some \<lparr>head = None\<rparr>) Map.empty = Some (Inr (Some l', h')) \<and>
                llist h' l' cs' \<and>
                mset (map snd cs') = mset (map snd ([] :: cell list)) \<and>
                mset cs' = mset [] \<and>
                length cs' = length ([] :: cell list)) \<and>
   llist twin_heap twin_list [(0, 3), (1, 3)] \<and>
   (\<exists>l' h' cs'. ListInsertionSort (Some twin_list) twin_heap = Some (Inr (Some l', h')) \<and>
                llist h' l' cs' \<and>
                mset (map snd cs') = mset (map snd [(0 :: addr, 3 :: int), (1, 3)]) \<and>
                mset cs' = mset [(0, 3), (1, 3)] \<and>
                length cs' = length [(0 :: addr, 3 :: int), (1, 3)])"
proof -
  have wf0: "llist Map.empty \<lparr>head = None\<rparr> []"
    by (simp add: llist_def)
  have wf2: "llist twin_heap twin_list [(0, 3), (1, 3)]"
    by (simp add: llist_def twin_heap_def twin_list_def)
  from wf0 ListInsertionSort_permutation[OF wf0] wf2 ListInsertionSort_permutation[OF wf2]
  show ?thesis by (intro conjI)
qed

section \<open>Termination\<close>

text \<open>
  Claim C9 (termination). For every finite, acyclic input list \<open>ListInsertionSort\<close>
  returns. When the list has at least two nodes, the loop test succeeds at the
  boundaries 0 to \<open>length rs\<close>, that is once for every node after the first, and
  fails at the next boundary, where \<open>curr\<close> is \<open>nullptr\<close>.
\<close>

theorem ListInsertionSort_terminates:
  assumes "llist h l cs"
  shows "(\<exists>l' h'. ListInsertionSort (Some l) h = Some (Inr (Some l', h'))) \<and>
         (\<forall>a b rs. cs = a # b # rs \<longrightarrow>
            (\<forall>n\<le>length rs. \<exists>l1 h1 p c.
               boundary_state n (l, h, Some (fst a), Some (fst b)) = Some (l1, h1, p, Some c)) \<and>
            (\<exists>l1 h1 p.
               boundary_state (Suc (length rs)) (l, h, Some (fst a), Some (fst b)) =
                 Some (l1, h1, p, None)))"
proof (intro conjI allI impI)
  from ListInsertionSort_llist[OF assms]
  show "\<exists>l' h'. ListInsertionSort (Some l) h = Some (Inr (Some l', h'))" by blast
next
  fix a b rs n
  assume cs: "cs = a # b # rs" and n: "n \<le> length rs"
  from assms cs have wf: "llist h l ([a] @ (b # rs))" by simp
  from n have le: "n \<le> length (b # rs)" by simp
  from n obtain x us where "drop n (b # rs) = x # us"
    by (cases "drop n (b # rs)") auto
  with boundary_state_llist[OF wf _ le]
  show "\<exists>l1 h1 p c. boundary_state n (l, h, Some (fst a), Some (fst b)) = Some (l1, h1, p, Some c)"
    by auto
next
  fix a b rs
  assume cs: "cs = a # b # rs"
  from assms cs have wf: "llist h l ([a] @ (b # rs))" by simp
  from boundary_state_llist[OF wf, of "length (b # rs)"]
  show "\<exists>l1 h1 p. boundary_state (Suc (length rs)) (l, h, Some (fst a), Some (fst b)) =
          Some (l1, h1, p, None)"
    by auto
qed

text \<open>The theorem at the list 39, 45, 11, 22: three passes, then the loop ends.\<close>

theorem ListInsertionSort_terminates_witness:
  "llist demo_heap demo_list [(0, 39), (1, 45), (2, 11), (3, 22)] \<and>
   (\<exists>l' h'. ListInsertionSort (Some demo_list) demo_heap = Some (Inr (Some l', h'))) \<and>
   (\<exists>l1 h1 p c. boundary_state 2 (demo_list, demo_heap, Some 0, Some 1) = Some (l1, h1, p, Some c)) \<and>
   (\<exists>l1 h1 p. boundary_state 3 (demo_list, demo_heap, Some 0, Some 1) = Some (l1, h1, p, None))"
proof -
  note t = ListInsertionSort_terminates[OF demo_wf]
  have "\<exists>l' h'. ListInsertionSort (Some demo_list) demo_heap = Some (Inr (Some l', h'))"
    using t by (rule conjunct1)
  moreover have "\<exists>l1 h1 p c. boundary_state 2 (demo_list, demo_heap, Some 0, Some 1) = Some (l1, h1, p, Some c)"
    using t[THEN conjunct2, rule_format, of "(0, 39)" "(1, 45)" "[(2, 11), (3, 22)]",
        THEN conjunct1, rule_format, of 2]
    by simp
  moreover have "\<exists>l1 h1 p. boundary_state 3 (demo_list, demo_heap, Some 0, Some 1) = Some (l1, h1, p, None)"
    using t[THEN conjunct2, rule_format, of "(0, 39)" "(1, 45)" "[(2, 11), (3, 22)]", THEN conjunct2]
    by (simp add: eval_nat_numeral)
  ultimately show ?thesis using demo_wf by simp
qed

section \<open>Call discipline of the sort driver\<close>

text \<open>
  Claim C8 (internal call discipline). For every input list the sort returns without
  any failure: no assertion fires and no pointer is misused. At every iteration
  boundary that the run reaches, \<open>prev\<close> is a node of the list, reachable from the
  head as the last node of a non-empty prefix, and \<open>curr\<close> is the successor stored in
  that node. Whenever \<open>curr\<close> is a node, \<open>ListRemoveAfter(list, prev)\<close> called in
  that state removes and returns exactly \<open>curr\<close>, and the pass through the loop body
  ends without a failure, so \<open>ListInsertAfter\<close> is never entered with a null anchor.
\<close>

theorem sort_call_discipline:
  assumes "llist h l cs"
  shows "(\<exists>r. ListInsertionSort (Some l) h = Some (Inr r)) \<and>
         (\<forall>a b rs n l1 h1 prev cur.
            cs = a # b # rs \<and>
            boundary_state n (l, h, Some (fst a), Some (fst b)) = Some (l1, h1, prev, cur) \<longrightarrow>
            (\<exists>ps us pn. ps \<noteq> [] \<and> llist h1 l1 (ps @ us) \<and>
               prev = Some (fst (last ps)) \<and> cur = ptr_of us \<and>
               h1 (fst (last ps)) = Some pn \<and> next pn = cur \<and>
               (cur \<noteq> None \<longrightarrow>
                  (\<exists>h2. ListRemoveAfter l1 prev h1 = Inr (cur, l1, h2)) \<and>
                  (\<exists>s'. sort_body l1 h1 prev cur = Some (Inr s')))))"
proof (intro conjI allI impI)
  from ListInsertionSort_llist[OF assms]
  show "\<exists>r. ListInsertionSort (Some l) h = Some (Inr r)" by blast
next
  fix a b rs n l1 h1 prev cur
  assume "cs = a # b # rs \<and>
          boundary_state n (l, h, Some (fst a), Some (fst b)) = Some (l1, h1, prev, cur)"
  with assms have "llist h l (a # b # rs)"
    and "boundary_state n (l, h, Some (fst a), Some (fst b)) = Some (l1, h1, prev, cur)"
    by simp_all
  then show "\<exists>ps us pn. ps \<noteq> [] \<and> llist h1 l1 (ps @ us) \<and>
               prev = Some (fst (last ps)) \<and> cur = ptr_of us \<and>
               h1 (fst (last ps)) = Some pn \<and> next pn = cur \<and>
               (cur \<noteq> None \<longrightarrow>
                  (\<exists>h2. ListRemoveAfter l1 prev h1 = Inr (cur, l1, h2)) \<and>
                  (\<exists>s'. sort_body l1 h1 prev cur = Some (Inr s')))"
    by (rule boundary_state_discipline)
qed

text \<open>
  The theorem at the list 39, 45, 11, 22 and the boundary after the first pass, where
  \<open>prev\<close> is the node of 45 and \<open>curr\<close> the node of 11.
\<close>

theorem sort_call_discipline_witness:
  "llist demo_heap demo_list [(0, 39), (1, 45), (2, 11), (3, 22)] \<and>
   boundary_state (Suc 0) (demo_list, demo_heap, Some 0, Some 1) =
     Some (demo_list, demo_heap, Some 1, Some 2) \<and>
   (\<exists>r. ListInsertionSort (Some demo_list) demo_heap = Some (Inr r)) \<and>
   (\<exists>ps us pn. ps \<noteq> [] \<and> llist demo_heap demo_list (ps @ us) \<and>
      Some 1 = Some (fst (last ps)) \<and> Some 2 = ptr_of us \<and>
      demo_heap (fst (last ps)) = Some pn \<and> next pn = Some 2 \<and>
      (Some 2 \<noteq> (None :: ptr) \<longrightarrow>
         (\<exists>h2. ListRemoveAfter demo_list (Some 1) demo_heap = Inr (Some 2, demo_list, h2)) \<and>
         (\<exists>s'. sort_body demo_list demo_heap (Some 1) (Some 2) = Some (Inr s'))))"
proof -
  note t = sort_call_discipline[OF demo_wf]
  have "\<exists>r. ListInsertionSort (Some demo_list) demo_heap = Some (Inr r)"
    using t by (rule conjunct1)
  moreover have "\<exists>ps us pn. ps \<noteq> [] \<and> llist demo_heap demo_list (ps @ us) \<and>
      Some 1 = Some (fst (last ps)) \<and> Some 2 = ptr_of us \<and>
      demo_heap (fst (last ps)) = Some pn \<and> next pn = Some 2 \<and>
      (Some 2 \<noteq> (None :: ptr) \<longrightarrow>
         (\<exists>h2. ListRemoveAfter demo_list (Some 1) demo_heap = Inr (Some 2, demo_list, h2)) \<and>
         (\<exists>s'. sort_body demo_list demo_heap (Some 1) (Some 2) = Some (Inr s')))"
    by (rule t[THEN conjunct2, rule_format,
          of "(0, 39)" "(1, 45)" "[(2, 11), (3, 22)]" "Suc 0" demo_list demo_heap "Some 1" "Some 2"])
       (simp only: fst_conv demo_first_pass simp_thms)
  ultimately show ?thesis using demo_wf demo_first_pass by (intro conjI)
qed

section \<open>The contract of the scan\<close>

text \<open>
  Claim C4, as stated, for every list, value and boundary: the scan returns the last
  node it walked past. It does not when the boundary is a node outside the list and
  every value is below the given one: on the one-node list holding 1, with the stray
  node as boundary and the value 5, the scan walks past the only node, does not meet
  the boundary, and reads through \<open>nullptr\<close> instead of returning that node.
\<close>

theorem FindInsertionSpot_stray_boundary:
  "llist stray_heap stray_list [(0, 1)] \<and>
   FindInsertionSpot stray_list 5 (Some 1) stray_heap = Some (Inl NullDeref) \<and>
   FindInsertionSpot stray_list 5 (Some 1) stray_heap \<noteq> Some (Inr (Some 0))"
  by (simp add: llist_def FindInsertionSpot_def FindInsertionSpot_loop.simps deref_def
      stray_heap_def stray_list_def)

text \<open>
  Claim C4, amended (postcondition of \<open>FindInsertionSpot\<close>). For every list, value
  and boundary such that the boundary is \<open>nullptr\<close> or the scan stops before the end
  of the list (it meets the boundary, or a node whose value is not strictly below the
  value): the scan starts at the head, walks past exactly the leading nodes that are not
  the boundary and whose value is strictly below the value, and returns the last of
  them, or \<open>nullptr\<close> when there is none.
\<close>

theorem FindInsertionSpot_post:
  assumes "llist h l cs"
    and "boundary = None \<or> takeWhile (\<lambda>c. Some (fst c) \<noteq> boundary \<and> snd c < v) cs \<noteq> cs"
  shows "FindInsertionSpot l v boundary h =
           Some (Inr (if takeWhile (\<lambda>c. Some (fst c) \<noteq> boundary \<and> snd c < v) cs = [] then None
                      else Some (fst (last (takeWhile (\<lambda>c. Some (fst c) \<noteq> boundary \<and> snd c < v) cs)))))"
  using assms(2) unfolding FindInsertionSpot_llist[OF assms(1)] by auto

text \<open>
  The theorem on the list 39, 45, 11, 22: bounded by the node of 11, the scan for 42
  returns the node of 39 and the scan for 11 returns \<open>nullptr\<close>; with no boundary, the
  scan for 50 returns the last node.
\<close>

theorem FindInsertionSpot_post_witness:
  "llist demo_heap demo_list [(0, 39), (1, 45), (2, 11), (3, 22)] \<and>
   FindInsertionSpot demo_list 42 (Some 2) demo_heap = Some (Inr (Some 0)) \<and>
   FindInsertionSpot demo_list 11 (Some 2) demo_heap = Some (Inr None) \<and>
   FindInsertionSpot demo_list 50 None demo_heap = Some (Inr (Some 3))"
proof -
  have wf: "llist demo_heap demo_list [(0, 39), (1, 45), (2, 11), (3, 22)]"
    by (simp add: llist_def demo_heap_def demo_list_def)
  have "FindInsertionSpot demo_list 42 (Some 2) demo_heap = Some (Inr (Some 0))"
    using FindInsertionSpot_post[OF wf, of "Some 2" 42] by simp
  moreover have "FindInsertionSpot demo_list 11 (Some 2) demo_heap = Some (Inr None)"
    using FindInsertionSpot_post[OF wf, of "Some 2" 11] by simp
  moreover have "FindInsertionSpot demo_list 50 None demo_heap = Some (Inr (Some 3))"
    using FindInsertionSpot_post[OF wf, of None 50] by simp
  ultimately show ?thesis using wf by simp
qed

text \<open>
  Claim C10 (implicit safety precondition of \<open>FindInsertionSpot\<close>). On every finite
  acyclic list the scan returns without reading through \<open>nullptr\<close> when the boundary
  is \<open>nullptr\<close> or a node of the list. When the boundary is a node that is not in the
  list and every value in the list is strictly below the given value, the scan reads
  through \<open>nullptr\<close>.
\<close>

theorem FindInsertionSpot_safety:
  assumes "llist h l cs"
  shows "(boundary = None \<or> boundary \<in> Some ` fst ` set cs \<longrightarrow>
            (\<exists>spot. FindInsertionSpot l v boundary h = Some (Inr spot))) \<and>
         (boundary \<noteq> None \<and> boundary \<notin> Some ` fst ` set cs \<and> (\<forall>c\<in>set cs. snd c < v) \<longrightarrow>
            FindInsertionSpot l v boundary h = Some (Inl NullDeref))"
proof (intro conjI impI)
  assume b: "boundary = None \<or> boundary \<in> Some ` fst ` set cs"
  have "boundary = None \<or> takeWhile (\<lambda>c. Some (fst c) \<noteq> boundary \<and> snd c < v) cs \<noteq> cs"
  proof (cases boundary)
    case None
    then show ?thesis by simp
  next
    case (Some a)
    with b obtain c where "c \<in> set cs" "Some (fst c) = boundary" by auto
    then have "\<not> (\<forall>c\<in>set cs. Some (fst c) \<noteq> boundary \<and> snd c < v)" by blast
    then show ?thesis by (simp add: takeWhile_eq_all_conv)
  qed
  then show "\<exists>spot. FindInsertionSpot l v boundary h = Some (Inr spot)"
    unfolding FindInsertionSpot_llist[OF assms] by auto
next
  assume b: "boundary \<noteq> None \<and> boundary \<notin> Some ` fst ` set cs \<and> (\<forall>c\<in>set cs. snd c < v)"
  then have "\<forall>c\<in>set cs. Some (fst c) \<noteq> boundary \<and> snd c < v" by auto
  then have "takeWhile (\<lambda>c. Some (fst c) \<noteq> boundary \<and> snd c < v) cs = cs"
    by (simp add: takeWhile_eq_all_conv)
  with b show "FindInsertionSpot l v boundary h = Some (Inl NullDeref)"
    unfolding FindInsertionSpot_llist[OF assms] by simp
qed

text \<open>
  The theorem on the list 39, 45, 11, 22 with the value 100: safe with the last node as
  boundary and with no boundary, a null dereference with the unknown address 7.
\<close>

theorem FindInsertionSpot_safety_witness:
  "llist demo_heap demo_list [(0, 39), (1, 45), (2, 11), (3, 22)] \<and>
   (\<exists>spot. FindInsertionSpot demo_list 100 (Some 3) demo_heap = Some (Inr spot)) \<and>
   (\<exists>spot. FindInsertionSpot demo_list 100 None demo_heap = Some (Inr spot)) \<and>
   FindInsertionSpot demo_list 100 (Some 7) demo_heap = Some (Inl NullDeref)"
proof -
  have wf: "llist demo_heap demo_list [(0, 39), (1, 45), (2, 11), (3, 22)]"
    by (simp add: llist_def demo_heap_def demo_list_def)
  have "\<exists>spot. FindInsertionSpot demo_list 100 (Some 3) demo_heap = Some (Inr spot)"
    using FindInsertionSpot_safety[OF wf, of "Some 3" 100] by simp
  moreover have "\<exists>spot. FindInsertionSpot demo_list 100 None demo_heap = Some (Inr spot)"
    using FindInsertionSpot_safety[OF wf, of None 100] by simp
  moreover have "FindInsertionSpot demo_list 100 (Some 7) demo_heap = Some (Inl NullDeref)"
    using FindInsertionSpot_safety[OF wf, of "Some 7" 100] by simp
  ultimately show ?thesis using wf by simp
qed

section \<open>The contract of ListRemoveAfter\<close>

text \<open>
  Claim C7 (contract of \<open>ListRemoveAfter\<close>). On every list: with a null anchor and an
  empty list nothing changes and \<open>nullptr\<close> is returned; with a null anchor and a
  non-empty list the head node is returned, the head becomes its old successor, and its
  own \<open>next\<close> is cleared; with the last node as anchor nothing changes and
  \<open>nullptr\<close> is returned; with any other node of the list as anchor the node after it
  is returned, the anchor's \<open>next\<close> becomes that node's old successor, and that node's
  own \<open>next\<close> is cleared. No other node changes, and what is left is the list
  without the removed node. With a null anchor or a node of the list as anchor,
  \<open>nullptr\<close> is returned exactly when the list is empty and the anchor null, or the
  anchor is the last node.
\<close>

theorem ListRemoveAfter_contract:
  assumes "llist h l cs"
  shows "(anchor = None \<and> cs = [] \<longrightarrow> ListRemoveAfter l anchor h = Inr (None, l, h)) \<and>
         (\<forall>x xs. anchor = None \<and> cs = x # xs \<longrightarrow>
            (\<exists>h'. ListRemoveAfter l anchor h = Inr (Some (fst x), l\<lparr>head := ptr_of xs\<rparr>, h') \<and>
                  llist h' (l\<lparr>head := ptr_of xs\<rparr>) xs \<and>
                  h' (fst x) = Some \<lparr>data = snd x, next = None\<rparr> \<and>
                  (\<forall>a. a \<noteq> fst x \<longrightarrow> h' a = h a))) \<and>
         (\<forall>as p. anchor = Some (fst p) \<and> cs = as @ [p] \<longrightarrow>
            ListRemoveAfter l anchor h = Inr (None, l, h)) \<and>
         (\<forall>as p x bs. anchor = Some (fst p) \<and> cs = as @ p # x # bs \<longrightarrow>
            (\<exists>h'. ListRemoveAfter l anchor h = Inr (Some (fst x), l, h') \<and>
                  llist h' l (as @ p # bs) \<and>
                  h' (fst p) = Some \<lparr>data = snd p, next = ptr_of bs\<rparr> \<and>
                  h' (fst x) = Some \<lparr>data = snd x, next = None\<rparr> \<and>
                  (\<forall>a. a \<noteq> fst p \<and> a \<noteq> fst x \<longrightarrow> h' a = h a))) \<and>
         (anchor = None \<or> anchor \<in> Some ` fst ` set cs \<longrightarrow>
            (\<exists>r l' h'. ListRemoveAfter l anchor h = Inr (r, l', h') \<and>
                  (r = None \<longleftrightarrow>
                     anchor = None \<and> cs = [] \<or> cs \<noteq> [] \<and> anchor = Some (fst (last cs)))))"
proof -
  have c1: "ListRemoveAfter l anchor h = Inr (None, l, h)" if "anchor = None \<and> cs = []"
    using that assms ListRemoveAfter_empty[of h l] by simp
  have c2: "\<exists>h'. ListRemoveAfter l anchor h = Inr (Some (fst x), l\<lparr>head := ptr_of xs\<rparr>, h') \<and>
             llist h' (l\<lparr>head := ptr_of xs\<rparr>) xs \<and>
             h' (fst x) = Some \<lparr>data = snd x, next = None\<rparr> \<and>
             (\<forall>a. a \<noteq> fst x \<longrightarrow> h' a = h a)"
    if "anchor = None \<and> cs = x # xs" for x xs
    using that assms ListRemoveAfter_head[of h l x xs] by simp
  have c3: "ListRemoveAfter l anchor h = Inr (None, l, h)"
    if "anchor = Some (fst p) \<and> cs = as @ [p]" for as p
    using that assms ListRemoveAfter_last[of h l as p] by simp
  have c4: "\<exists>h'. ListRemoveAfter l anchor h = Inr (Some (fst x), l, h') \<and>
             llist h' l (as @ p # bs) \<and>
             h' (fst p) = Some \<lparr>data = snd p, next = ptr_of bs\<rparr> \<and>
             h' (fst x) = Some \<lparr>data = snd x, next = None\<rparr> \<and>
             (\<forall>a. a \<noteq> fst p \<and> a \<noteq> fst x \<longrightarrow> h' a = h a)"
    if "anchor = Some (fst p) \<and> cs = as @ p # x # bs" for as p x bs
    using that assms ListRemoveAfter_llist[of h l as p x bs] by simp
  have c5: "\<exists>r l' h'. ListRemoveAfter l anchor h = Inr (r, l', h') \<and>
              (r = None \<longleftrightarrow> anchor = None \<and> cs = [] \<or> cs \<noteq> [] \<and> anchor = Some (fst (last cs)))"
    if a: "anchor = None \<or> anchor \<in> Some ` fst ` set cs"
  proof (cases anchor)
    case None
    show ?thesis
    proof (cases cs)
      case Nil
      with None c1 show ?thesis by simp
    next
      case (Cons x xs)
      with None c2[of x xs] show ?thesis by auto
    qed
  next
    case (Some a')
    with a obtain p where p: "p \<in> set cs" "anchor = Some (fst p)" by auto
    then obtain as bs where cs: "cs = as @ p # bs" by (auto simp: in_set_conv_decomp)
    show ?thesis
    proof (cases bs)
      case Nil
      with p cs c3[of p as] show ?thesis by simp
    next
      case (Cons x bs')
      from assms have "distinct (map fst cs)" unfolding llist_def by (rule lseg_distinct)
      with cs Cons have "fst (last cs) \<noteq> fst p" using last_fst_neq[of as p x bs'] by simp
      moreover from p cs Cons c4[of p as x bs'] obtain h' where
        "ListRemoveAfter l anchor h = Inr (Some (fst x), l, h')" by auto
      ultimately show ?thesis using p by simp
    qed
  qed
  show ?thesis
  proof (intro conjI allI impI)
    show "ListRemoveAfter l anchor h = Inr (None, l, h)" if "anchor = None \<and> cs = []"
      using that by (rule c1)
    show "\<exists>h'. ListRemoveAfter l anchor h = Inr (Some (fst x), l\<lparr>head := ptr_of xs\<rparr>, h') \<and>
             llist h' (l\<lparr>head := ptr_of xs\<rparr>) xs \<and>
             h' (fst x) = Some \<lparr>data = snd x, next = None\<rparr> \<and>
             (\<forall>a. a \<noteq> fst x \<longrightarrow> h' a = h a)"
      if "anchor = None \<and> cs = x # xs" for x xs
      using that by (rule c2)
    show "ListRemoveAfter l anchor h = Inr (None, l, h)"
      if "anchor = Some (fst p) \<and> cs = as @ [p]" for as p
      using that by (rule c3)
    show "\<exists>h'. ListRemoveAfter l anchor h = Inr (Some (fst x), l, h') \<and>
             llist h' l (as @ p # bs) \<and>
             h' (fst p) = Some \<lparr>data = snd p, next = ptr_of bs\<rparr> \<and>
             h' (fst x) = Some \<lparr>data = snd x, next = None\<rparr> \<and>
             (\<forall>a. a \<noteq> fst p \<and> a \<noteq> fst x \<longrightarrow> h' a = h a)"
      if "anchor = Some (fst p) \<and> cs = as @ p # x # bs" for as p x bs
      using that by (rule c4)
    show "\<exists>r l' h'. ListRemoveAfter l anchor h = Inr (r, l', h') \<and>
              (r = None \<longleftrightarrow> anchor = None \<and> cs = [] \<or> cs \<noteq> [] \<and> anchor = Some (fst (last cs)))"
      if "anchor = None \<or> anchor \<in> Some ` fst ` set cs"
      using that by (rule c5)
  qed
qed

text \<open>
  The theorem on the list 39, 45, 11, 22: removing the head, removing after the node
  of 45, removing after the last node, and removing from the empty list.
\<close>

theorem ListRemoveAfter_contract_witness:
  "llist demo_heap demo_list [(0, 39), (1, 45), (2, 11), (3, 22)] \<and>
   (\<exists>h'. ListRemoveAfter demo_list None demo_heap = Inr (Some 0, demo_list\<lparr>head := Some 1\<rparr>, h') \<and>
         llist h' (demo_list\<lparr>head := Some 1\<rparr>) [(1, 45), (2, 11), (3, 22)] \<and>
         h' 0 = Some \<lparr>data = 39, next = None\<rparr> \<and>
         (\<forall>a. a \<noteq> 0 \<longrightarrow> h' a = demo_heap a)) \<and>
   (\<exists>h'. ListRemoveAfter demo_list (Some 1) demo_heap = Inr (Some 2, demo_list, h') \<and>
         llist h' demo_list [(0, 39), (1, 45), (3, 22)] \<and>
         h' 1 = Some \<lparr>data = 45, next = Some 3\<rparr> \<and>
         h' 2 = Some \<lparr>data = 11, next = None\<rparr> \<and>
         (\<forall>a. a \<noteq> 1 \<and> a \<noteq> 2 \<longrightarrow> h' a = demo_heap a)) \<and>
   ListRemoveAfter demo_list (Some 3) demo_heap = Inr (None, demo_list, demo_heap) \<and>
   llist Map.empty \<lparr>head = None\<rparr> [] \<and>
   ListRemoveAfter \<lparr>head = None\<rparr> None Map.empty = Inr (None, \<lparr>head = None\<rparr>, Map.empty)"
proof -
  have wf: "llist demo_heap demo_list [(0, 39), (1, 45), (2, 11), (3, 22)]"
    by (simp add: llist_def demo_heap_def demo_list_def)
  have wf0: "llist Map.empty \<lparr>head = None\<rparr> []"
    by (simp add: llist_def)
  note c = ListRemoveAfter_contract[OF wf]
  have "\<exists>h'. ListRemoveAfter demo_list None demo_heap = Inr (Some 0, demo_list\<lparr>head := Some 1\<rparr>, h') \<and>
         llist h' (demo_list\<lparr>head := Some 1\<rparr>) [(1, 45), (2, 11), (3, 22)] \<and>
         h' 0 = Some \<lparr>data = 39, next = None\<rparr> \<and>
         (\<forall>a. a \<noteq> 0 \<longrightarrow> h' a = demo_heap a)"
    using c[of None, THEN conjunct2, THEN conjunct1, rule_format, of "(0, 39)" "[(1, 45), (2, 11), (3, 22)]"]
    by simp
  moreover have "\<exists>h'. ListRemoveAfter demo_list (Some 1) demo_heap = Inr (Some 2, demo_list, h') \<and>
         llist h' demo_list [(0, 39), (1, 45), (3, 22)] \<and>
         h' 1 = Some \<lparr>data = 45, next = Some 3\<rparr> \<and>
         h' 2 = Some \<lparr>data = 11, next = None\<rparr> \<and>
         (\<forall>a. a \<noteq> 1 \<and> a \<noteq> 2 \<longrightarrow> h' a = demo_heap a)"
    using c[of "Some 1", THEN conjunct2, THEN conjunct2, THEN conjunct2, THEN conjunct1, rule_format,
        of "(1, 45)" "[(0, 39)]" "(2, 11)" "[(3, 22)]"]
    by simp
  moreover have "ListRemoveAfter demo_list (Some 3) demo_heap = Inr (None, demo_list, demo_heap)"
    using c[of "Some 3", THEN conjunct2, THEN conjunct2, THEN conjunct1, rule_format,
        of "(3, 22)" "[(0, 39), (1, 45), (2, 11)]"]
    by simp
  moreover have "ListRemoveAfter \<lparr>head = None\<rparr> None Map.empty = Inr (None, \<lparr>head = None\<rparr>, Map.empty)"
    using ListRemoveAfter_contract[OF wf0, of None, THEN conjunct1] by simp
  ultimately show ?thesis using wf wf0 by simp
qed

section \<open>Stability\<close>

text \<open>
  Claim C1 (stability): the code at the two-node list of equal values 3. The scan for
  the second node stops at the first one at once, because 3 is not strictly below 3,
  and returns \<open>nullptr\<close>; the second node is unlinked and put at the head. The list
  that \<open>ListInsertionSort\<close> leaves is the second node followed by the first.
\<close>

theorem ListInsertionSort_twin_reversed:
  "llist twin_heap twin_list [(0, 3), (1, 3)] \<and>
   (\<exists>l' h'. ListInsertionSort (Some twin_list) twin_heap = Some (Inr (Some l', h')) \<and>
            llist h' l' [(1, 3), (0, 3)])"
proof -
  have "case ListInsertionSort (Some twin_list) twin_heap of
          Some (Inr (Some l', h')) \<Rightarrow> llist h' l' [(1, 3), (0, 3)]
        | _ \<Rightarrow> False"
    by (simp add: ListInsertionSort_def twin_heap_def twin_list_def deref_def sort_loop.simps
        sort_body_def FindInsertionSpot_def FindInsertionSpot_loop.simps ListRemoveAfter_def
        set_next_def ListPrepend_def llist_def)
  then have "\<exists>l' h'. ListInsertionSort (Some twin_list) twin_heap = Some (Inr (Some l', h')) \<and>
            llist h' l' [(1, 3), (0, 3)]"
    by (auto split: option.splits sum.splits)
  moreover have "llist twin_heap twin_list [(0, 3), (1, 3)]"
    by (simp add: llist_def twin_heap_def twin_list_def)
  ultimately show ?thesis by simp
qed

text \<open>
  Claim C5 (loop invariant): the code at the same list, at the boundary after the first
  pass. The chain from the head to \<open>prev\<close> is the second input node followed by the
  first: it is sorted, and it is not in input order.
\<close>

theorem sort_prefix_twin_reversed:
  "llist twin_heap twin_list [(0, 3), (1, 3)] \<and>
   (\<exists>l1 h1. boundary_state (Suc 0) (twin_list, twin_heap, Some 0, Some 1) = Some (l1, h1, Some 0, None) \<and>
            llist h1 l1 [(1, 3), (0, 3)])"
proof -
  have "case boundary_state (Suc 0) (twin_list, twin_heap, Some 0, Some 1) of
          Some (l1, h1, prev, cur) \<Rightarrow> prev = Some 0 \<and> cur = None \<and> llist h1 l1 [(1, 3), (0, 3)]
        | None \<Rightarrow> False"
    by (simp add: twin_heap_def twin_list_def deref_def
        sort_body_def FindInsertionSpot_def FindInsertionSpot_loop.simps ListRemoveAfter_def
        set_next_def ListPrepend_def llist_def)
  then have "\<exists>l1 h1. boundary_state (Suc 0) (twin_list, twin_heap, Some 0, Some 1) = Some (l1, h1, Some 0, None) \<and>
            llist h1 l1 [(1, 3), (0, 3)]"
    by (auto split: option.splits)
  moreover have "llist twin_heap twin_list [(0, 3), (1, 3)]"
    by (simp add: llist_def twin_heap_def twin_list_def)
  ultimately show ?thesis by simp
qed

text \<open>
  Claim C6 (idempotence on sorted input): the code at the sorted list of three equal
  values 7. The list that \<open>ListInsertionSort\<close> leaves holds the same nodes in the
  reverse order.
\<close>

theorem ListInsertionSort_triple_reversed:
  "llist triple_heap triple_list [(0, 7), (1, 7), (2, 7)] \<and>
   (\<exists>l' h'. ListInsertionSort (Some triple_list) triple_heap = Some (Inr (Some l', h')) \<and>
            llist h' l' [(2, 7), (1, 7), (0, 7)])"
proof -
  have "case ListInsertionSort (Some triple_list) triple_heap of
          Some (Inr (Some l', h')) \<Rightarrow> llist h' l' [(2, 7), (1, 7), (0, 7)]
        | _ \<Rightarrow> False"
    by (simp add: ListInsertionSort_def triple_heap_def triple_list_def deref_def sort_loop.simps
        sort_body_def FindInsertionSpot_def FindInsertionSpot_loop.simps ListRemoveAfter_def
        set_next_def ListPrepend_def llist_def)
  then have "\<exists>l' h'. ListInsertionSort (Some triple_list) triple_heap = Some (Inr (Some l', h')) \<and>
            llist h' l' [(2, 7), (1, 7), (0, 7)]"
    by (auto split: option.splits sum.splits)
  moreover have "llist triple_heap triple_list [(0, 7), (1, 7), (2, 7)]"
    by (simp add: llist_def triple_heap_def triple_list_def)
  ultimately show ?thesis by simp
qed

end
